theory Spec2Isabelle
  imports Main "HOL-Library.Char_ord" "HOL-Library.Sublist"
begin

section \<open>The go-wiki page server\<close>

text \<open>
  The repository holds three stages of one small wiki server. The last stage
  (the file with \<open>linkPath\<close>, \<open>DisplayBody\<close> and \<open>indexHandler\<close>) is the one
  embedded here; \<open>wiki.go\<close> differs from it in the directory of the page files
  (none instead of \<open>data/\<close>), which is the parameter \<open>dir\<close> below, and in having
  no link rendering and no index route.

  Go strings and byte slices are byte sequences: \<open>string\<close>, a list of 8-bit
  characters.
\<close>

type_synonym bytes = string

subsection \<open>Regular expressions of package regexp\<close>

text \<open>
  The two patterns of the program are compiled by \<open>regexp.MustCompile\<close>. Their
  abstract syntax is written out as a datatype, and matching follows the
  leftmost-first rule of package regexp: among the matches that start at the
  leftmost possible position, the one a backtracking search finds first.
  \<open>ms r s\<close> lists, in that order of preference, every state in which \<open>r\<close> can
  stop when started in state \<open>s\<close>. Both patterns consist of ASCII characters
  only, so matching bytes and matching UTF-8 runes agree.
\<close>

datatype re =
    Lit char
  | Cls "(char \<times> char) list"
  | Cat re re
  | Alt re re
  | Plus re
  | Cap nat re
  | Bol
  | Eol
  | Eps

record mstate =
  pos :: nat
  rest :: string
  caps :: "nat \<rightharpoonup> string"

definition in_cls :: "(char \<times> char) list \<Rightarrow> char \<Rightarrow> bool" where
  "in_cls R c = list_ex (\<lambda>(lo, hi). lo \<le> c \<and> c \<le> hi) R"

definition step :: "(char \<Rightarrow> bool) \<Rightarrow> mstate \<Rightarrow> mstate list" where
  "step P s =
     (case rest s of
        [] \<Rightarrow> []
      | x # xs \<Rightarrow> if P x then [s\<lparr>pos := Suc (pos s), rest := xs\<rparr>] else [])"

function iter :: "(mstate \<Rightarrow> mstate list) \<Rightarrow> mstate \<Rightarrow> mstate list" where
  "iter f s =
     concat (map (\<lambda>s'. (if length (rest s') < length (rest s) then iter f s' else []) @ [s'])
                 (f s))"
  by pat_completeness auto
termination
  by (relation "measure (\<lambda>(f, s). length (rest s))") auto

declare iter.simps [simp del]

primrec ms :: "re \<Rightarrow> mstate \<Rightarrow> mstate list" where
  "ms (Lit c) s = step (\<lambda>x. x = c) s"
| "ms (Cls R) s = step (in_cls R) s"
| "ms (Cat a b) s = concat (map (ms b) (ms a s))"
| "ms (Alt a b) s = ms a s @ ms b s"
| "ms (Plus r) s = iter (ms r) s"
| "ms (Cap n r) s =
     map (\<lambda>s'. s'\<lparr>caps := (caps s')(n \<mapsto> take (pos s' - pos s) (rest s))\<rparr>) (ms r s)"
| "ms Bol s = (if pos s = 0 then [s] else [])"
| "ms Eol s = (if rest s = [] then [s] else [])"
| "ms Eps s = [s]"

primrec ngroups :: "re \<Rightarrow> nat" where
  "ngroups (Lit c) = 0"
| "ngroups (Cls R) = 0"
| "ngroups (Cat a b) = ngroups a + ngroups b"
| "ngroups (Alt a b) = ngroups a + ngroups b"
| "ngroups (Plus r) = ngroups r"
| "ngroups (Cap n r) = Suc (ngroups r)"
| "ngroups Bol = 0"
| "ngroups Eol = 0"
| "ngroups Eps = 0"

text \<open>
  \<open>search r p s\<close> looks for the leftmost match in the text whose part from
  offset \<open>p\<close> on is \<open>s\<close>: the start offset and the final state of the preferred
  match at the first offset that has one.
\<close>

fun search :: "re \<Rightarrow> nat \<Rightarrow> string \<Rightarrow> (nat \<times> mstate) option" where
  "search r p [] =
     (case ms r \<lparr>pos = p, rest = [], caps = Map.empty\<rparr> of
        [] \<Rightarrow> None
      | s # _ \<Rightarrow> Some (p, s))"
| "search r p (c # cs) =
     (case ms r \<lparr>pos = p, rest = c # cs, caps = Map.empty\<rparr> of
        [] \<Rightarrow> search r (Suc p) cs
      | s # _ \<Rightarrow> Some (p, s))"

definition slice :: "'a list \<Rightarrow> nat \<Rightarrow> nat \<Rightarrow> 'a list" where
  "slice xs i j = take (j - i) (drop i xs)"

text \<open>
  \<open>FindStringSubmatch\<close>: the text of the leftmost match and of its groups, or
  \<open>None\<close> for Go's nil slice. A group that took no part in the match is the
  empty string.
\<close>

definition FindStringSubmatch :: "re \<Rightarrow> string \<Rightarrow> string list option" where
  "FindStringSubmatch r s =
     (case search r 0 s of
        None \<Rightarrow> None
      | Some (a0, st) \<Rightarrow>
          Some (slice s a0 (pos st) #
                map (\<lambda>i. case caps st i of None \<Rightarrow> [] | Some g \<Rightarrow> g) [1..<Suc (ngroups r)]))"

text \<open>
  \<open>ReplaceAllFunc\<close> is the loop of regexp's \<open>replaceAll\<close>, with its variables
  \<open>lastMatchEnd\<close>, \<open>searchPos\<close> and \<open>buf\<close>. The replacement function may panic,
  which is the result \<open>None\<close>; the loop then stops with it. After a match the
  search resumes at its end, or one byte further on when the match is empty
  (Go steps over a whole rune there).
\<close>

function replaceAll ::
  "re \<Rightarrow> bytes \<Rightarrow> (bytes \<Rightarrow> bytes option) \<Rightarrow> nat \<Rightarrow> nat \<Rightarrow> bytes \<Rightarrow> bytes option" where
  "replaceAll r src repl lastMatchEnd searchPos buf =
     (if searchPos \<le> length src then
        (case search r searchPos (drop searchPos src) of
           None \<Rightarrow> Some (buf @ drop lastMatchEnd src)
         | Some (a0, st) \<Rightarrow>
             (case (if lastMatchEnd < pos st \<or> a0 = 0 then repl (slice src a0 (pos st))
                    else Some []) of
                None \<Rightarrow> None
              | Some out \<Rightarrow>
                  replaceAll r src repl (pos st)
                    (if pos st < searchPos + 1 then searchPos + 1 else pos st)
                    (buf @ slice src lastMatchEnd a0 @ out)))
      else Some (buf @ drop lastMatchEnd src))"
  by pat_completeness auto
termination
  by (relation "measure (\<lambda>(r, src, repl, l, p, buf). Suc (length src) - p)") auto

declare replaceAll.simps [simp del]

definition ReplaceAllFunc :: "re \<Rightarrow> bytes \<Rightarrow> (bytes \<Rightarrow> bytes option) \<Rightarrow> bytes option" where
  "ReplaceAllFunc r src repl = replaceAll r src repl 0 0 []"

primrec lits :: "string \<Rightarrow> re" where
  "lits [] = Eps"
| "lits (c # cs) = Cat (Lit c) (lits cs)"

definition alnum :: "(char \<times> char) list" where
  "alnum = [(CHR ''a'', CHR ''z''), (CHR ''A'', CHR ''Z''), (CHR ''0'', CHR ''9'')]"

text \<open>\<^verbatim>\<open>^/(edit|save|view)/([a-zA-Z0-9]+)$\<close>\<close>

definition validPath :: re where
  "validPath =
     Cat Bol (Cat (Lit CHR ''/'')
       (Cat (Cap 1 (Alt (lits ''edit'') (Alt (lits ''save'') (lits ''view''))))
         (Cat (Lit CHR ''/'') (Cat (Cap 2 (Plus (Cls alnum))) Eol))))"

text \<open>\<^verbatim>\<open>\[([a-zA-Z0-9]+)\]\<close>\<close>

definition linkPath :: re where
  "linkPath = Cat (Lit CHR ''['') (Cat (Cap 1 (Plus (Cls alnum))) (Lit CHR '']''))"

subsection \<open>HTML escaping\<close>

text \<open>
  \<open>template.HTMLEscapeString\<close> of the standard library replaces, byte by byte,
  the five characters that are special in HTML by entities, and the NUL byte by
  the UTF-8 encoding of U+FFFD.
\<close>

definition htmlNull :: string where
  "htmlNull = [CHR 0xEF, CHR 0xBF, CHR 0xBD]"

definition escape_byte :: "char \<Rightarrow> string" where
  "escape_byte c =
     (if c = CHR 0x00 then htmlNull
      else if c = CHR 0x22 then ''&#34;''
      else if c = CHR 0x27 then ''&#39;''
      else if c = CHR ''&'' then ''&amp;''
      else if c = CHR ''<'' then ''&lt;''
      else if c = CHR ''>'' then ''&gt;''
      else [c])"

definition HTMLEscapeString :: "string \<Rightarrow> string" where
  "HTMLEscapeString s = concat (map escape_byte s)"

subsection \<open>Pages and their files\<close>

record Page =
  Title :: string
  Body :: bytes
  DisplayBody :: string

text \<open>
  The file system the program runs on: the files by path, the paths and
  contents the operating system refuses (with the message of the error),
  and the calls of \<open>WriteFile\<close> made so far. A refused write is taken to
  leave the files as they were.
\<close>

record world =
  files :: "string \<rightharpoonup> bytes"
  write_error :: "string \<Rightarrow> bytes \<Rightarrow> string option"
  read_error :: "string \<Rightarrow> string option"
  writes :: "(string \<times> bytes) list"

definition WriteFile :: "string \<Rightarrow> bytes \<Rightarrow> world \<Rightarrow> string option \<times> world" where
  "WriteFile filename data w =
     (case write_error w filename data of
        Some err \<Rightarrow> (Some err, w\<lparr>writes := writes w @ [(filename, data)]\<rparr>)
      | None \<Rightarrow>
          (None, w\<lparr>files := (files w)(filename \<mapsto> data),
                   writes := writes w @ [(filename, data)]\<rparr>))"

definition ReadFile :: "string \<Rightarrow> world \<Rightarrow> string + bytes" where
  "ReadFile filename w =
     (case files w filename of
        None \<Rightarrow> Inl (''open '' @ filename @ '': no such file or directory'')
      | Some data \<Rightarrow>
          (case read_error w filename of Some err \<Rightarrow> Inl err | None \<Rightarrow> Inr data))"

text \<open>
  \<open>dir\<close> is the directory prefix of the page files: \<open>''data/''\<close> in the last
  stage, empty in \<open>wiki.go\<close>. An error result of Go is \<open>Some\<close> of its message,
  \<open>nil\<close> is \<open>None\<close>.
\<close>

definition save :: "string \<Rightarrow> Page \<Rightarrow> world \<Rightarrow> string option \<times> world" where
  "save dir p w = (let filename = Title p @ ''.txt'' in WriteFile (dir @ filename) (Body p) w)"

definition loadPage :: "string \<Rightarrow> string \<Rightarrow> world \<Rightarrow> string + Page" where
  "loadPage dir title w =
     (let filename = title @ ''.txt'' in
      case ReadFile (dir @ filename) w of
        Inl err \<Rightarrow> Inl err
      | Inr body \<Rightarrow> Inr \<lparr>Title = title, Body = body, DisplayBody = []\<rparr>)"

subsection \<open>Requests, responses and handlers\<close>

record request =
  Method :: string
  url_path :: string
  form :: "string \<rightharpoonup> string"

definition FormValue :: "request \<Rightarrow> string \<Rightarrow> string" where
  "FormValue r key = (case form r key of None \<Rightarrow> [] | Some v \<Rightarrow> v)"

text \<open>
  What a handler leaves in the \<open>ResponseWriter\<close>: a redirect to a location
  with a status, an error text with a status, the output of a template with
  status 200, a file of the static file server, or nothing because the
  handler panicked.
\<close>

datatype response =
    HttpRedirect string nat
  | HttpError string nat
  | Written string
  | Static string
  | Aborted

definition StatusMovedPermanently :: nat where "StatusMovedPermanently = 301"
definition StatusFound :: nat where "StatusFound = 302"
definition StatusNotFound :: nat where "StatusNotFound = 404"
definition StatusInternalServerError :: nat where "StatusInternalServerError = 500"

definition http_NotFound :: response where
  "http_NotFound = HttpError ''404 page not found'' StatusNotFound"

type_synonym handler = "request \<Rightarrow> world \<Rightarrow> response \<times> world"

text \<open>
  The parsed templates are files outside the sources: \<open>templates name p\<close> is
  what executing the template \<open>name\<close> on page \<open>p\<close> gives, an error message
  or the text written.
\<close>

type_synonym templates = "string \<Rightarrow> Page \<Rightarrow> string + string"

definition renderTemplate :: "templates \<Rightarrow> string \<Rightarrow> Page \<Rightarrow> response" where
  "renderTemplate templates tmpl p =
     (case templates (tmpl @ ''.html'') p of
        Inl err \<Rightarrow> HttpError err StatusInternalServerError
      | Inr out \<Rightarrow> Written out)"

definition indexHandler :: handler where
  "indexHandler r w = (HttpRedirect ''/view/index'' StatusFound, w)"

text \<open>Indexing a Go slice: out of range is a panic, here \<open>None\<close>.\<close>

definition index :: "'a list \<Rightarrow> nat \<Rightarrow> 'a option" where
  "index xs i = (if i < length xs then Some (xs ! i) else None)"

text \<open>The function literal that \<open>viewHandler\<close> passes to \<open>ReplaceAllFunc\<close>.\<close>

definition link_repl :: "bytes \<Rightarrow> bytes option" where
  "link_repl str =
     (let matched = (case FindStringSubmatch linkPath str of None \<Rightarrow> [] | Some m \<Rightarrow> m) in
      case index matched 1 of
        None \<Rightarrow> None
      | Some t \<Rightarrow>
          Some (''<a href='' @ [CHR 0x22] @ ''/view/'' @ t @ [CHR 0x22] @ ''>'' @ t @ ''</a>''))"

definition viewHandler :: "templates \<Rightarrow> string \<Rightarrow> request \<Rightarrow> string \<Rightarrow> world \<Rightarrow> response \<times> world" where
  "viewHandler templates dir r title w =
     (case loadPage dir title w of
        Inl err \<Rightarrow> (HttpRedirect (''/edit/'' @ title) StatusFound, w)
      | Inr p \<Rightarrow>
          (let escapedBody = HTMLEscapeString (Body p) in
           case ReplaceAllFunc linkPath escapedBody link_repl of
             None \<Rightarrow> (Aborted, w)
           | Some d \<Rightarrow> (renderTemplate templates ''view'' (p\<lparr>DisplayBody := d\<rparr>), w)))"

definition editHandler :: "templates \<Rightarrow> string \<Rightarrow> request \<Rightarrow> string \<Rightarrow> world \<Rightarrow> response \<times> world" where
  "editHandler templates dir r title w =
     (let p = (case loadPage dir title w of
                 Inl err \<Rightarrow> \<lparr>Title = title, Body = [], DisplayBody = []\<rparr>
               | Inr p \<Rightarrow> p)
      in (renderTemplate templates ''edit'' p, w))"

definition saveHandler :: "string \<Rightarrow> request \<Rightarrow> string \<Rightarrow> world \<Rightarrow> response \<times> world" where
  "saveHandler dir r title w =
     (let body = FormValue r ''body'';
          p = \<lparr>Title = title, Body = body, DisplayBody = []\<rparr>
      in case save dir p w of
           (Some err, w') \<Rightarrow> (HttpError err StatusInternalServerError, w')
         | (None, w') \<Rightarrow> (HttpRedirect (''/view/'' @ title) StatusFound, w'))"

definition makeHandler :: "(request \<Rightarrow> string \<Rightarrow> world \<Rightarrow> response \<times> world) \<Rightarrow> handler" where
  "makeHandler fn r w =
     (case FindStringSubmatch validPath (url_path r) of
        None \<Rightarrow> (http_NotFound, w)
      | Some m \<Rightarrow> (case index m 2 of None \<Rightarrow> (Aborted, w) | Some title \<Rightarrow> fn r title w))"

subsection \<open>Routing: the default ServeMux of net/http and main\<close>

text \<open>
  \<open>main\<close> registers its handlers with \<open>http.HandleFunc\<close> and
  \<open>http.Handle\<close> and serves them through the default \<open>ServeMux\<close>. The
  multiplexer is library code; it is written out here as package net/http
  documents it. A pattern that ends in a slash names a subtree, any other a
  single path, and the longest pattern that matches wins. A request for a
  subtree's root without the final slash is redirected to the root, and a
  request whose path is not clean (repeated slashes, \<open>.\<close> or \<open>..\<close>
  elements) is redirected to the clean path. The location of such a redirect
  is given as the path, before URL escaping; queries and hosts are left out.
\<close>

definition StatusBadRequest :: nat where "StatusBadRequest = 400"

primrec split :: "char \<Rightarrow> string \<Rightarrow> string list" where
  "split c [] = [[]]"
| "split c (x # xs) =
     (if x = c then [] # split c xs
      else (case split c xs of [] \<Rightarrow> [[x]] | e # es \<Rightarrow> (x # e) # es))"

fun join :: "string list \<Rightarrow> string" where
  "join [] = []"
| "join [e] = e"
| "join (e # es) = e @ CHR ''/'' # join es"

text \<open>
  \<open>path.Clean\<close> on a rooted path: the elements between slashes are read from
  the left onto a stack (\<open>out\<close>, last element first); an empty element and
  \<open>.\<close> are dropped, \<open>..\<close> drops the element before it, if there is one.
\<close>

fun clean_elems :: "string list \<Rightarrow> string list \<Rightarrow> string list" where
  "clean_elems out [] = rev out"
| "clean_elems out (e # es) =
     (if e = [] \<or> e = ''.'' then clean_elems out es
      else if e = ''..'' then clean_elems (tl out) es
      else clean_elems (e # out) es)"

definition Clean :: "string \<Rightarrow> string" where
  "Clean p = CHR ''/'' # join (clean_elems [] (split CHR ''/'' (tl p)))"

definition cleanPath :: "string \<Rightarrow> string" where
  "cleanPath p =
     (if p = [] then ''/''
      else
        (let p' = (if hd p \<noteq> CHR ''/'' then CHR ''/'' # p else p);
             np = Clean p'
         in if last p' = CHR ''/'' \<and> np \<noteq> ''/'' then np @ ''/'' else np))"

type_synonym mux = "(string \<times> handler) list"

primrec longest :: "mux \<Rightarrow> string \<Rightarrow> (string \<times> handler) option" where
  "longest [] path = None"
| "longest (e # es) path =
     (if fst e \<noteq> [] \<and> last (fst e) = CHR ''/'' \<and> prefix (fst e) path then
        (case longest es path of
           None \<Rightarrow> Some e
         | Some b \<Rightarrow> if length (fst e) < length (fst b) then Some b else Some e)
      else longest es path)"

definition NotFoundHandler :: handler where
  "NotFoundHandler r w = (http_NotFound, w)"

definition RedirectHandler :: "string \<Rightarrow> nat \<Rightarrow> handler" where
  "RedirectHandler url code r w = (HttpRedirect url code, w)"

definition mux_handler :: "mux \<Rightarrow> string \<Rightarrow> handler" where
  "mux_handler m path =
     (case map_of m path of
        Some h \<Rightarrow> h
      | None \<Rightarrow> (case longest m path of Some e \<Rightarrow> snd e | None \<Rightarrow> NotFoundHandler))"

definition shouldRedirect :: "mux \<Rightarrow> string \<Rightarrow> bool" where
  "shouldRedirect m path =
     (if map_of m path \<noteq> None then False
      else if path = [] then False
      else if map_of m (path @ ''/'') \<noteq> None then last path \<noteq> CHR ''/''
      else False)"

definition Handler :: "mux \<Rightarrow> request \<Rightarrow> handler" where
  "Handler m r =
     (if Method r = ''CONNECT'' then
        (if shouldRedirect m (url_path r)
         then RedirectHandler (url_path r @ ''/'') StatusMovedPermanently
         else mux_handler m (url_path r))
      else
        (let path = cleanPath (url_path r) in
         if shouldRedirect m path then RedirectHandler (path @ ''/'') StatusMovedPermanently
         else if path \<noteq> url_path r then RedirectHandler path StatusMovedPermanently
         else mux_handler m (url_path r)))"

definition ServeHTTP :: "mux \<Rightarrow> handler" where
  "ServeHTTP m r w =
     (if url_path r = ''*'' then (HttpError [] StatusBadRequest, w)
      else Handler m r r w)"

definition StripPrefix :: "string \<Rightarrow> handler \<Rightarrow> handler" where
  "StripPrefix pre h r w =
     (if prefix pre (url_path r) \<and> pre \<noteq> []
      then h (r\<lparr>url_path := drop (length pre) (url_path r)\<rparr>) w
      else (http_NotFound, w))"

text \<open>The static files are outside the sources: the response names the file asked for.\<close>

definition FileServer :: "string \<Rightarrow> handler" where
  "FileServer root r w =
     (let upath = (if prefix ''/'' (url_path r) then url_path r else CHR ''/'' # url_path r)
      in (Static (root @ upath), w))"

text \<open>The registrations of \<open>main\<close>, and the server they make.\<close>

definition main_mux :: "templates \<Rightarrow> mux" where
  "main_mux templates =
     [(''/'', indexHandler),
      (''/view/'', makeHandler (viewHandler templates ''data/'')),
      (''/edit/'', makeHandler (editHandler templates ''data/'')),
      (''/save/'', makeHandler (saveHandler ''data/'')),
      (''/static/'', StripPrefix ''/static/'' (FileServer ''static''))]"

definition serve :: "templates \<Rightarrow> handler" where
  "serve templates = ServeHTTP (main_mux templates)"

section \<open>What the specification says, in its own words\<close>

text \<open>
  The specification describes the renderer without regular expressions: a
  marker is an opening bracket, one or more characters of a-z, A-Z, 0-9, and a
  closing bracket; the text is scanned from the left, a marker is consumed
  whole and the scan resumes right after it; the literal spans and the
  anchors are concatenated in their order. These are the definitions below,
  which the theorems compare with the code.
\<close>

definition is_alnum :: "char \<Rightarrow> bool" where
  "is_alnum c = in_cls alnum c"

definition valid_title :: "string \<Rightarrow> bool" where
  "valid_title t = (t \<noteq> [] \<and> list_all is_alnum t)"

text \<open>
  The paths the router lets through: a slash, one of the three verbs, a slash
  and a title. \<open>route\<close> gives the verb and the title of such a path.
\<close>

definition verbs :: "string list" where
  "verbs = [''edit'', ''save'', ''view'']"

definition route :: "string \<Rightarrow> (string \<times> string) option" where
  "route path =
     (if take 1 path = ''/'' \<and> take 4 (drop 1 path) \<in> set verbs \<and> take 1 (drop 5 path) = ''/''
         \<and> valid_title (drop 6 path)
      then Some (take 4 (drop 1 path), drop 6 path) else None)"

text \<open>\<open>marker s\<close>: the title of the marker that \<open>s\<close> starts with, and the text after it.\<close>

definition marker :: "string \<Rightarrow> (string \<times> string) option" where
  "marker s =
     (case s of
        [] \<Rightarrow> None
      | c # r \<Rightarrow>
          (case dropWhile is_alnum r of
             [] \<Rightarrow> None
           | d # r' \<Rightarrow>
               if c = CHR ''['' \<and> takeWhile is_alnum r \<noteq> [] \<and> d = CHR '']''
               then Some (takeWhile is_alnum r, r') else None))"

datatype seg = Text string | Link string

fun addc :: "char \<Rightarrow> seg list \<Rightarrow> seg list" where
  "addc c (Text t # ss) = Text (c # t) # ss"
| "addc c ss = Text [c] # ss"

function segments :: "string \<Rightarrow> seg list" where
  "segments [] = []"
| "segments (c # cs) =
     (case marker (c # cs) of
        Some (t, r) \<Rightarrow> Link t # segments r
      | None \<Rightarrow> addc c (segments cs))"
  by pat_completeness auto
termination
proof (relation "measure length", goal_cases)
  case 1
  show ?case by simp
next
  case (2 c cs)
  show ?case by simp
next
  case (3 c cs m t r)
  then have "dropWhile is_alnum cs = CHR '']'' # r"
    by (auto simp: marker_def split: list.splits if_splits)
  then have "length (CHR '']'' # r) \<le> length cs"
    using length_dropWhile_le [of is_alnum cs] by simp
  then show ?case by simp
qed

primrec subst :: "(string \<Rightarrow> string) \<Rightarrow> seg \<Rightarrow> string" where
  "subst f (Text t) = t"
| "subst f (Link t) = f t"

definition replace_markers :: "(string \<Rightarrow> string) \<Rightarrow> string \<Rightarrow> string" where
  "replace_markers f e = concat (map (subst f) (segments e))"

definition bracket :: "string \<Rightarrow> string" where
  "bracket t = CHR ''['' # t @ '']''"

definition anchor :: "string \<Rightarrow> string" where
  "anchor t = ''<a href='' @ [CHR 0x22] @ ''/view/'' @ t @ [CHR 0x22] @ ''>'' @ t @ ''</a>''"

text \<open>
  Text without live markup: none of the characters \<open><\<close>, \<open>>\<close>, the double and
  the single quote, and every \<open>&\<close> starts one of the five entities.
\<close>

definition markup :: "char list" where
  "markup = [CHR ''<'', CHR ''>'', CHR 0x22, CHR 0x27]"

definition entities :: "string list" where
  "entities = [''amp;'', ''lt;'', ''gt;'', ''#34;'', ''#39;'']"

fun html_text :: "string \<Rightarrow> bool" where
  "html_text [] = True"
| "html_text (c # cs) =
     (c \<notin> set markup \<and> (if c = CHR ''&'' then list_ex (\<lambda>e. prefix e cs) entities else True)
      \<and> html_text cs)"

text \<open>A world and templates to run the handlers on.\<close>

definition demo_world :: "(string \<times> bytes) list \<Rightarrow> world" where
  "demo_world fs =
     \<lparr>files = map_of fs, write_error = (\<lambda>filename data. None),
      read_error = (\<lambda>filename. None), writes = []\<rparr>"

definition demo_templates :: templates where
  "demo_templates name p = Inr (name @ '': '' @ Title p @ '': '' @ DisplayBody p)"

definition demo_request :: "string \<Rightarrow> request" where
  "demo_request p = \<lparr>Method = ''GET'', url_path = p, form = Map.empty\<rparr>"

definition demo_post :: "string \<Rightarrow> string \<Rightarrow> request" where
  "demo_post p body = \<lparr>Method = ''POST'', url_path = p, form = map_of [(''body'', body)]\<rparr>"

section \<open>The regular expressions\<close>

lemma iter_step:
  assumes G: "\<And>s'. rest s' \<noteq> [] \<Longrightarrow> P (hd (rest s')) \<Longrightarrow> G s' = []"
  shows "concat (map G (iter (step P) s)) =
     (if takeWhile P (rest s) = [] then []
      else G (s\<lparr>pos := pos s + length (takeWhile P (rest s)), rest := dropWhile P (rest s)\<rparr>))"
proof (induction "rest s" arbitrary: s)
  case Nil
  then show ?case by (simp add: iter.simps [of _ s] step_def)
next
  case (Cons x xs)
  show ?case
  proof (cases "P x")
    case False
    with Cons(2) [symmetric] show ?thesis by (simp add: iter.simps [of _ s] step_def)
  next
    case True
    let ?s1 = "s\<lparr>pos := Suc (pos s), rest := xs\<rparr>"
    have it: "iter (step P) s = iter (step P) ?s1 @ [?s1]"
      using True Cons(2) [symmetric] by (simp add: iter.simps [of _ s] step_def)
    have ih: "concat (map G (iter (step P) ?s1)) =
       (if takeWhile P xs = [] then []
        else G (?s1\<lparr>pos := pos ?s1 + length (takeWhile P xs), rest := dropWhile P xs\<rparr>))"
      using Cons(1) [of ?s1] by simp
    show ?thesis
    proof (cases "takeWhile P xs = []")
      case e: True
      then have "dropWhile P xs = xs"
        by (cases xs) (auto split: if_splits)
      with e it ih True Cons(2) [symmetric] show ?thesis by simp
    next
      case ne: False
      then have "xs \<noteq> []" "P (hd xs)" by (cases xs; auto split: if_splits)+
      then have "G ?s1 = []" using G [of ?s1] by simp
      with ne it ih True Cons(2) [symmetric] show ?thesis by simp
    qed
  qed
qed

lemma not_alnum_brackets: "\<not> is_alnum CHR ''[''" "\<not> is_alnum CHR '']''"
  by (simp_all add: is_alnum_def in_cls_def alnum_def)

lemma take_length_takeWhile: "take (length (takeWhile P xs)) xs = takeWhile P xs"
  by (induction xs) auto

lemma ms_Cls_fun: "ms (Cls R) = step (in_cls R)"
  by (rule ext) simp

lemma ms_group_then:
  assumes G: "\<And>s'. rest s' \<noteq> [] \<Longrightarrow> P (hd (rest s')) \<Longrightarrow> ms b s' = []"
    and P: "P = in_cls R"
  shows "ms (Cat (Cap n (Plus (Cls R))) b) s =
     (if takeWhile P (rest s) = [] then []
      else ms b (s\<lparr>pos := pos s + length (takeWhile P (rest s)),
                    rest := dropWhile P (rest s),
                    caps := (caps s)(n \<mapsto> takeWhile P (rest s))\<rparr>))"
proof -
  let ?c = "\<lambda>s'. s'\<lparr>caps := (caps s')(n \<mapsto> take (pos s' - pos s) (rest s))\<rparr>"
  have "ms (Cat (Cap n (Plus (Cls R))) b) s = concat (map (\<lambda>s'. ms b (?c s')) (iter (step P) s))"
    by (simp add: P comp_def ms_Cls_fun)
  also have "\<dots> =
     (if takeWhile P (rest s) = [] then []
      else ms b (?c (s\<lparr>pos := pos s + length (takeWhile P (rest s)), rest := dropWhile P (rest s)\<rparr>)))"
    by (rule iter_step) (simp add: G)
  finally show ?thesis by (simp add: take_length_takeWhile)
qed

lemma ms_linkPath:
  "ms linkPath s =
     (case marker (rest s) of
        None \<Rightarrow> []
      | Some (t, r) \<Rightarrow> [s\<lparr>pos := pos s + length t + 2, rest := r, caps := (caps s)(1 \<mapsto> t)\<rparr>])"
proof (cases "rest s")
  case Nil
  then show ?thesis by (simp add: linkPath_def marker_def step_def)
next
  case (Cons c r)
  show ?thesis
  proof (cases "c = CHR ''[''")
    case False
    with Cons show ?thesis
      by (simp add: linkPath_def marker_def step_def split: list.splits)
  next
    case True
    let ?s1 = "s\<lparr>pos := Suc (pos s), rest := r\<rparr>"
    have 1: "ms linkPath s = ms (Cat (Cap 1 (Plus (Cls alnum))) (Lit CHR '']'')) ?s1"
      using Cons True by (simp add: linkPath_def step_def)
    have 2: "ms (Cat (Cap 1 (Plus (Cls alnum))) (Lit CHR '']'')) ?s1 =
      (if takeWhile is_alnum (rest ?s1) = [] then []
       else ms (Lit CHR '']'') (?s1\<lparr>pos := pos ?s1 + length (takeWhile is_alnum (rest ?s1)),
                    rest := dropWhile is_alnum (rest ?s1),
                    caps := (caps ?s1)(1 \<mapsto> takeWhile is_alnum (rest ?s1))\<rparr>))"
    proof (rule ms_group_then)
      fix s' :: mstate
      assume "rest s' \<noteq> []" "is_alnum (hd (rest s'))"
      then show "ms (Lit CHR '']'') s' = []"
        using not_alnum_brackets by (cases "rest s'") (auto simp: step_def)
    next
      show "is_alnum = in_cls alnum" by (simp add: is_alnum_def fun_eq_iff)
    qed
    show ?thesis
      unfolding 1 2 using Cons True
      by (cases "dropWhile is_alnum r")
         (simp_all add: marker_def step_def del: dropWhile_eq_Nil_conv)
  qed
qed

lemma marker_iff:
  "marker s = Some (t, r) \<longleftrightarrow>
     s = CHR ''['' # t @ CHR '']'' # r \<and> t \<noteq> [] \<and> (\<forall>c\<in>set t. is_alnum c)"
proof
  assume m: "marker s = Some (t, r)"
  then obtain c r0 where s: "s = c # r0" by (cases s) (auto simp: marker_def)
  from m s have c: "c = CHR ''[''" and t: "takeWhile is_alnum r0 = t" "t \<noteq> []"
    and d: "dropWhile is_alnum r0 = CHR '']'' # r"
    by (auto simp: marker_def split: list.splits if_splits)
  have "r0 = t @ CHR '']'' # r"
    using takeWhile_dropWhile_id [of is_alnum r0] t d by simp
  moreover have "\<forall>c\<in>set t. is_alnum c"
    using t(1) set_takeWhileD by fastforce
  ultimately show "s = CHR ''['' # t @ CHR '']'' # r \<and> t \<noteq> [] \<and> (\<forall>c\<in>set t. is_alnum c)"
    using s c t by simp
next
  assume a: "s = CHR ''['' # t @ CHR '']'' # r \<and> t \<noteq> [] \<and> (\<forall>c\<in>set t. is_alnum c)"
  then have "takeWhile is_alnum (t @ CHR '']'' # r) = t"
    and "dropWhile is_alnum (t @ CHR '']'' # r) = CHR '']'' # r"
    using not_alnum_brackets by (simp_all add: takeWhile_tail dropWhile_append3)
  with a show "marker s = Some (t, r)" by (simp add: marker_def)
qed

lemma marker_valid_title: "marker s = Some (t, r) \<Longrightarrow> valid_title t"
  by (simp add: marker_iff valid_title_def list_all_iff)

section \<open>Scanning for markers\<close>

lemma subst_addc: "concat (map (subst f) (addc c ss)) = c # concat (map (subst f) ss)"
  by (cases "(c, ss)" rule: addc.cases) simp_all

lemma replace_markers_Nil: "replace_markers f [] = []"
  by (simp add: replace_markers_def)

lemma replace_markers_Cons:
  "replace_markers f (c # cs) =
     (case marker (c # cs) of
        Some (t, r) \<Rightarrow> f t @ replace_markers f r
      | None \<Rightarrow> c # replace_markers f cs)"
  by (simp add: replace_markers_def subst_addc split: option.splits)

lemma search_linkPath_None:
  "search linkPath p s = None \<Longrightarrow> replace_markers f s = s"
proof (induction s arbitrary: p)
  case Nil
  show ?case by (simp add: replace_markers_Nil)
next
  case (Cons c cs)
  from Cons.prems have m: "marker (c # cs) = None" and n: "search linkPath (Suc p) cs = None"
    by (auto simp: ms_linkPath split: option.splits list.splits)
  from Cons.IH [OF n] m show ?case by (simp add: replace_markers_Cons)
qed

lemma search_linkPath_Some:
  "search linkPath p s = Some (a0, st) \<Longrightarrow>
     \<exists>k t. a0 = p + k \<and> drop k s = bracket t @ rest st \<and> valid_title t
        \<and> pos st = a0 + length t + 2 \<and> caps st = [1 \<mapsto> t]
        \<and> (\<forall>j<k. marker (drop j s) = None)
        \<and> (\<forall>f. replace_markers f s = take k s @ f t @ replace_markers f (rest st))"
proof (induction s arbitrary: p)
  case Nil
  then show ?case by (simp add: ms_linkPath marker_def)
next
  case (Cons c cs)
  show ?case
  proof (cases "marker (c # cs)")
    case None
    with Cons.prems have "search linkPath (Suc p) cs = Some (a0, st)"
      by (simp add: ms_linkPath)
    from Cons.IH [OF this] obtain k t where k:
      "a0 = Suc p + k" "drop k cs = bracket t @ rest st" "valid_title t"
      "pos st = a0 + length t + 2" "caps st = [1 \<mapsto> t]"
      "\<forall>j<k. marker (drop j cs) = None"
      "\<forall>f. replace_markers f cs = take k cs @ f t @ replace_markers f (rest st)"
      by blast
    have "\<forall>j<Suc k. marker (drop j (c # cs)) = None"
    proof (intro allI impI)
      fix j assume "j < Suc k"
      with None k(6) show "marker (drop j (c # cs)) = None" by (cases j) simp_all
    qed
    with None k show ?thesis
      by (intro exI [of _ "Suc k"] exI [of _ t]) (simp add: replace_markers_Cons)
  next
    case (Some tr)
    obtain t r where tr: "tr = (t, r)" by (cases tr)
    with Some Cons.prems have st: "a0 = p" "st = \<lparr>pos = p + length t + 2, rest = r, caps = [1 \<mapsto> t]\<rparr>"
      by (auto simp: ms_linkPath)
    from Some tr have "c # cs = CHR ''['' # t @ CHR '']'' # r" "valid_title t"
      by (simp_all add: marker_iff valid_title_def list_all_iff)
    with st Some tr show ?thesis
      by (intro exI [of _ 0] exI [of _ t]) (simp add: replace_markers_Cons bracket_def)
  qed
qed

lemma ngroups_linkPath: "ngroups linkPath = 1"
  by (simp add: linkPath_def)

lemma FindStringSubmatch_bracket:
  assumes "valid_title t"
  shows "FindStringSubmatch linkPath (bracket t) = Some [bracket t, t]"
proof -
  have "marker (bracket t) = Some (t, [])"
    using assms by (simp add: marker_iff valid_title_def list_all_iff bracket_def)
  then have "search linkPath 0 (bracket t) =
      Some (0, \<lparr>pos = length t + 2, rest = [], caps = [1 \<mapsto> t]\<rparr>)"
    by (simp add: ms_linkPath bracket_def)
  then show ?thesis
    by (simp add: FindStringSubmatch_def ngroups_linkPath slice_def bracket_def)
qed

lemma link_repl_bracket: "valid_title t \<Longrightarrow> link_repl (bracket t) = Some (anchor t)"
  by (simp add: FindStringSubmatch_bracket link_repl_def index_def anchor_def)

lemma replaceAll_linkPath:
  assumes repl: "\<And>t. valid_title t \<Longrightarrow> repl (bracket t) = Some (f t)"
  shows "p \<le> length src \<Longrightarrow>
     replaceAll linkPath src repl p p buf = Some (buf @ replace_markers f (drop p src))"
proof (induction "length src - p" arbitrary: p buf rule: less_induct)
  case less
  show ?case
  proof (cases "search linkPath p (drop p src)")
    case None
    with less.prems search_linkPath_None [OF None] show ?thesis
      by (simp add: replaceAll.simps [of _ _ _ p p])
  next
    case (Some m)
    obtain a0 st where m: "m = (a0, st)" by (cases m)
    from search_linkPath_Some [OF Some [unfolded m]] obtain k t where
      a0: "a0 = p + k" and d: "drop k (drop p src) = bracket t @ rest st"
      and t: "valid_title t" and e: "pos st = a0 + length t + 2"
      and r: "replace_markers f (drop p src) =
                take k (drop p src) @ f t @ replace_markers f (rest st)"
      by blast
    from d have d': "drop a0 src = bracket t @ rest st"
      by (simp add: a0 add.commute)
    have lb: "length (bracket t) = length t + 2" by (simp add: bracket_def)
    have len: "length src = a0 + length t + 2 + length (rest st)"
      using arg_cong [OF d', of length] lb by simp
    have sl: "slice src a0 (pos st) = bracket t"
      using d' e lb by (simp add: slice_def)
    have dr: "drop (pos st) src = rest st"
    proof -
      have "drop (pos st) src = drop (length (bracket t)) (drop a0 src)"
        by (simp add: e lb add.commute)
      then show ?thesis by (simp add: d')
    qed
    have pre: "slice src p a0 = take k (drop p src)"
      by (simp add: slice_def a0)
    have le: "pos st \<le> length src" "p < pos st"
      using len e a0 by simp_all
    then have "length src - pos st < length src - p" by simp
    from less.hyps [OF this le(1)]
    have ih: "replaceAll linkPath src repl (pos st) (pos st) (buf @ slice src p a0 @ f t) =
       Some ((buf @ slice src p a0 @ f t) @ replace_markers f (drop (pos st) src))" .
    have "replaceAll linkPath src repl p p buf =
        replaceAll linkPath src repl (pos st) (pos st) (buf @ slice src p a0 @ f t)"
      using less.prems Some m le sl repl [OF t]
      by (subst replaceAll.simps) simp
    with ih r dr pre show ?thesis by simp
  qed
qed

lemma ReplaceAllFunc_linkPath:
  assumes "\<And>t. valid_title t \<Longrightarrow> repl (bracket t) = Some (f t)"
  shows "ReplaceAllFunc linkPath e repl = Some (replace_markers f e)"
  using replaceAll_linkPath [of repl f 0 e "[]"] assms by (simp add: ReplaceAllFunc_def)

lemma ReplaceAllFunc_link_repl:
  "ReplaceAllFunc linkPath e link_repl = Some (replace_markers anchor e)"
  by (rule ReplaceAllFunc_linkPath) (rule link_repl_bracket)

lemma replace_markers_bracket: "replace_markers bracket e = e"
proof (induction "length e" arbitrary: e rule: less_induct)
  case less
  show ?case
  proof (cases e)
    case Nil
    then show ?thesis by (simp add: replace_markers_Nil)
  next
    case (Cons c cs)
    show ?thesis
    proof (cases "marker (c # cs)")
      case None
      with less [of cs] Cons show ?thesis by (simp add: replace_markers_Cons)
    next
      case (Some tr)
      obtain t r where tr: "tr = (t, r)" by (cases tr)
      with Some have e: "c # cs = bracket t @ r" by (simp add: marker_iff bracket_def)
      then have "length r < length e"
        using Cons arg_cong [OF e, of length] by (simp add: bracket_def)
      from less [OF this] have ih: "replace_markers bracket r = r" .
      have "replace_markers bracket (c # cs) = bracket t @ replace_markers bracket r"
        using Some tr by (simp add: replace_markers_Cons)
      then show ?thesis unfolding Cons ih e .
    qed
  qed
qed

section \<open>Rendering a page\<close>

lemma escape_byte_bracket: "CHR ''['' \<in> set (escape_byte c) \<Longrightarrow> c = CHR ''[''"
  by (simp add: escape_byte_def htmlNull_def split: if_splits)

lemma HTMLEscapeString_bracket:
  "CHR ''['' \<notin> set s \<Longrightarrow> CHR ''['' \<notin> set (HTMLEscapeString s)"
  by (auto simp: HTMLEscapeString_def dest: escape_byte_bracket)

lemma marker_needs_bracket: "CHR ''['' \<notin> set e \<Longrightarrow> marker e = None"
  by (cases e) (auto simp: marker_def split: list.splits)

lemma replace_markers_no_bracket: "CHR ''['' \<notin> set e \<Longrightarrow> replace_markers f e = e"
proof (induction e)
  case Nil
  show ?case by (simp add: replace_markers_Nil)
next
  case (Cons c cs)
  then have "marker (c # cs) = None" by (intro marker_needs_bracket)
  with Cons show ?case by (simp add: replace_markers_Cons)
qed

lemma viewHandler_found:
  "loadPage dir title w = Inr p \<Longrightarrow>
     viewHandler templates dir r title w =
       (renderTemplate templates ''view''
          (p\<lparr>DisplayBody := replace_markers anchor (HTMLEscapeString (Body p))\<rparr>), w)"
  by (simp add: viewHandler_def ReplaceAllFunc_link_repl)

text \<open>
  C4: when the raw body of the page holds neither an opening nor a closing
  bracket, the display body that \<open>viewHandler\<close> hands to the view template
  is exactly the HTML-escaped raw body.
\<close>

theorem view_without_brackets:
  assumes "loadPage dir title w = Inr p"
    and "CHR ''['' \<notin> set (Body p)" and "CHR '']'' \<notin> set (Body p)"
  shows "viewHandler templates dir r title w =
     (renderTemplate templates ''view'' (p\<lparr>DisplayBody := HTMLEscapeString (Body p)\<rparr>), w)"
  using assms
  by (simp add: viewHandler_found replace_markers_no_bracket HTMLEscapeString_bracket)

theorem view_without_brackets_witness:
  "viewHandler demo_templates ''data/'' (demo_request ''/view/Home'') ''Home''
      (demo_world [(''data/Home.txt'', ''a < b'')]) =
   (Written ''view.html: Home: a &lt; b'', demo_world [(''data/Home.txt'', ''a < b'')])"
  using view_without_brackets [of "''data/''" "''Home''"
      "demo_world [(''data/Home.txt'', ''a < b'')]"
      "\<lparr>Title = ''Home'', Body = ''a < b'', DisplayBody = []\<rparr>"
      demo_templates "demo_request ''/view/Home''"]
  by (simp add: loadPage_def ReadFile_def demo_world_def renderTemplate_def
      demo_templates_def HTMLEscapeString_def escape_byte_def)

section \<open>Editing and saving\<close>

text \<open>
  C5: when loading the page fails, as it does when there is no file for the
  title, \<open>editHandler\<close> renders the edit template on a page with the
  requested title and an empty body, and leaves the files alone; the error of
  the load appears nowhere in the response.
\<close>

theorem edit_missing_page_is_blank:
  assumes "loadPage dir title w = Inl err"
  shows "editHandler templates dir r title w =
     (renderTemplate templates ''edit'' \<lparr>Title = title, Body = [], DisplayBody = []\<rparr>, w)"
  using assms by (simp add: editHandler_def)

theorem edit_missing_page_is_blank_witness:
  "loadPage ''data/'' ''NoSuchPage'' (demo_world []) =
     Inl ''open data/NoSuchPage.txt: no such file or directory'' \<and>
   editHandler demo_templates ''data/'' (demo_request ''/edit/NoSuchPage'') ''NoSuchPage''
       (demo_world []) =
     (Written ''edit.html: NoSuchPage: '', demo_world [])"
proof -
  have h: "loadPage ''data/'' ''NoSuchPage'' (demo_world []) =
      Inl ''open data/NoSuchPage.txt: no such file or directory''"
    by (simp add: loadPage_def ReadFile_def demo_world_def)
  show ?thesis
    using h edit_missing_page_is_blank [OF h, of demo_templates "demo_request ''/edit/NoSuchPage''"]
    by (simp add: renderTemplate_def demo_templates_def)
qed

text \<open>
  C6: \<open>saveHandler\<close> calls \<open>WriteFile\<close> exactly once, on the file of the
  title and with the submitted body. When the write is refused, the response
  is the error's message with status 500 and there is no redirect; when it is
  accepted, the file holds the submitted body whatever it held before, and
  the response is a redirect to the view of the title with status 302.
\<close>

theorem save_once_then_report:
  assumes "saveHandler dir r title w = (resp, w')"
  shows "writes w' = writes w @ [(dir @ title @ ''.txt'', FormValue r ''body'')] \<and>
     (case write_error w (dir @ title @ ''.txt'') (FormValue r ''body'') of
        Some err \<Rightarrow> resp = HttpError err StatusInternalServerError
      | None \<Rightarrow>
          resp = HttpRedirect (''/view/'' @ title) StatusFound \<and>
          files w' (dir @ title @ ''.txt'') = Some (FormValue r ''body''))"
  using assms
  by (auto simp: saveHandler_def save_def WriteFile_def Let_def split: option.splits)

theorem save_once_then_report_witness:
  "writes (snd (saveHandler ''data/'' (demo_post ''/save/Home'' ''new text'') ''Home''
       (demo_world [(''data/Home.txt'', ''old text'')]))) =
     [(''data/Home.txt'', ''new text'')] \<and>
   fst (saveHandler ''data/'' (demo_post ''/save/Home'' ''new text'') ''Home''
       (demo_world [(''data/Home.txt'', ''old text'')])) =
     HttpRedirect ''/view/Home'' 302 \<and>
   files (snd (saveHandler ''data/'' (demo_post ''/save/Home'' ''new text'') ''Home''
       (demo_world [(''data/Home.txt'', ''old text'')]))) ''data/Home.txt'' =
     Some ''new text'' \<and>
   fst (saveHandler ''data/'' (demo_post ''/save/Home'' ''new text'') ''Home''
       ((demo_world [])\<lparr>write_error := \<lambda>filename data. Some ''disk full''\<rparr>)) =
     HttpError ''disk full'' 500 \<and>
   writes (snd (saveHandler ''data/'' (demo_post ''/save/Home'' ''new text'') ''Home''
       ((demo_world [])\<lparr>write_error := \<lambda>filename data. Some ''disk full''\<rparr>))) =
     [(''data/Home.txt'', ''new text'')]"
  using save_once_then_report [of "''data/''" "demo_post ''/save/Home'' ''new text''"
      "''Home''" "demo_world [(''data/Home.txt'', ''old text'')]", OF surjective_pairing]
    save_once_then_report [of "''data/''" "demo_post ''/save/Home'' ''new text''"
      "''Home''" "(demo_world [])\<lparr>write_error := \<lambda>filename data. Some ''disk full''\<rparr>",
      OF surjective_pairing]
  by (simp add: demo_world_def demo_post_def FormValue_def StatusFound_def
      StatusInternalServerError_def)

text \<open>
  C7: a successful \<open>save\<close> changes one file, the one named by the title and
  \<open>.txt\<close> in the page directory, and makes its content the body of the page
  and nothing else; a \<open>loadPage\<close> of the same title that succeeds afterwards
  returns that title and that body.
\<close>

theorem save_then_load:
  assumes "save dir p w = (None, w')"
  shows "files w' = (files w)(dir @ Title p @ ''.txt'' \<mapsto> Body p) \<and>
     (\<forall>q. loadPage dir (Title p) w' = Inr q \<longrightarrow> Title q = Title p \<and> Body q = Body p)"
  using assms
  by (auto simp: save_def WriteFile_def loadPage_def ReadFile_def Let_def
      split: option.splits sum.splits)

theorem save_then_load_witness:
  "loadPage [] ''TestPage''
     (snd (save [] \<lparr>Title = ''TestPage'', Body = ''This is a sample page.'', DisplayBody = []\<rparr>
        (demo_world []))) =
   Inr \<lparr>Title = ''TestPage'', Body = ''This is a sample page.'', DisplayBody = []\<rparr>"
proof -
  let ?p = "\<lparr>Title = ''TestPage'', Body = ''This is a sample page.'', DisplayBody = []\<rparr>"
  have h: "save [] ?p (demo_world []) = (None, snd (save [] ?p (demo_world [])))"
    by (simp add: save_def WriteFile_def demo_world_def Let_def)
  show ?thesis
    using save_then_load [OF h]
    by (simp add: loadPage_def ReadFile_def save_def WriteFile_def demo_world_def Let_def)
qed

text \<open>
  C9: the display body is a function of the raw body alone. Two views whose
  pages have equal raw bodies hand the same display body to the template,
  whatever the titles, requests, templates, directories and other files are,
  and neither view changes the files.
\<close>

theorem display_body_is_function_of_body:
  assumes "loadPage dir1 title1 w1 = Inr p1" and "loadPage dir2 title2 w2 = Inr p2"
    and "Body p1 = Body p2"
  shows "\<exists>d. viewHandler templates1 dir1 r1 title1 w1 =
              (renderTemplate templates1 ''view'' (p1\<lparr>DisplayBody := d\<rparr>), w1) \<and>
            viewHandler templates2 dir2 r2 title2 w2 =
              (renderTemplate templates2 ''view'' (p2\<lparr>DisplayBody := d\<rparr>), w2)"
  using assms by (auto simp: viewHandler_found)

theorem display_body_is_function_of_body_witness:
  "\<exists>d. viewHandler demo_templates ''data/'' (demo_request ''/view/A'') ''A''
          (demo_world [(''data/A.txt'', ''x [B]'')]) =
        (renderTemplate demo_templates ''view''
           (\<lparr>Title = ''A'', Body = ''x [B]'', DisplayBody = []\<rparr>\<lparr>DisplayBody := d\<rparr>),
         demo_world [(''data/A.txt'', ''x [B]'')]) \<and>
      viewHandler (\<lambda>name p. Inl ''no such template'') [] (demo_post ''/view/Z'' ''q'') ''Z''
          (demo_world [(''Z.txt'', ''x [B]''), (''Y.txt'', ''y'')]) =
        (renderTemplate (\<lambda>name p. Inl ''no such template'') ''view''
           (\<lparr>Title = ''Z'', Body = ''x [B]'', DisplayBody = []\<rparr>\<lparr>DisplayBody := d\<rparr>),
         demo_world [(''Z.txt'', ''x [B]''), (''Y.txt'', ''y'')])"
proof -
  have h1: "loadPage ''data/'' ''A'' (demo_world [(''data/A.txt'', ''x [B]'')]) =
      Inr \<lparr>Title = ''A'', Body = ''x [B]'', DisplayBody = []\<rparr>"
    by (simp add: loadPage_def ReadFile_def demo_world_def)
  have h2: "loadPage [] ''Z'' (demo_world [(''Z.txt'', ''x [B]''), (''Y.txt'', ''y'')]) =
      Inr \<lparr>Title = ''Z'', Body = ''x [B]'', DisplayBody = []\<rparr>"
    by (simp add: loadPage_def ReadFile_def demo_world_def)
  show ?thesis
    by (rule display_body_is_function_of_body [OF h1 h2]) simp
qed

section \<open>The router\<close>

lemma ms_lits:
  "ms (lits w) s =
     (if prefix w (rest s) then [s\<lparr>pos := pos s + length w, rest := drop (length w) (rest s)\<rparr>]
      else [])"
proof (induction w arbitrary: s)
  case Nil
  show ?case by simp
next
  case (Cons c w)
  show ?case
  proof (cases "rest s")
    case Nil
    then show ?thesis by (simp add: step_def)
  next
    case (Cons x xs)
    with Cons.IH show ?thesis by (simp add: step_def)
  qed
qed

lemma ngroups_lits: "ngroups (lits w) = 0"
  by (induction w) simp_all

lemma ngroups_validPath: "ngroups validPath = 2"
  by (simp add: validPath_def ngroups_lits)

lemma prefix_take: "prefix w xs \<longleftrightarrow> take (length w) xs = w"
  by (metis append_eq_conv_conj append_take_drop_id prefix_def)

lemma ms_Bol_then: "ms (Cat Bol r) s = (if pos s = 0 then ms r s else [])"
  by simp

lemma ms_Lit_then:
  "ms (Cat (Lit c) r) s =
     (case rest s of
        [] \<Rightarrow> []
      | x # xs \<Rightarrow> if x = c then ms r (s\<lparr>pos := Suc (pos s), rest := xs\<rparr>) else [])"
  by (simp add: step_def split: list.splits)

lemma ms_word:
  "length w = 4 \<Longrightarrow>
     ms (lits w) s =
       (if take 4 (rest s) = w then [s\<lparr>pos := pos s + 4, rest := drop 4 (rest s)\<rparr>] else [])"
  using ms_lits [of w s] by (simp add: prefix_take)

lemma ms_verbs:
  "ms (Alt (lits ''edit'') (Alt (lits ''save'') (lits ''view''))) s =
     (if take 4 (rest s) \<in> set verbs then [s\<lparr>pos := pos s + 4, rest := drop 4 (rest s)\<rparr>]
      else [])"
  by (simp add: ms_word verbs_def del: lits.simps)

lemma ms_verbs_then:
  "ms (Cat (Cap n (Alt (lits ''edit'') (Alt (lits ''save'') (lits ''view'')))) r) s =
     (if take 4 (rest s) \<in> set verbs
      then ms r (s\<lparr>pos := pos s + 4, rest := drop 4 (rest s),
                    caps := (caps s)(n \<mapsto> take 4 (rest s))\<rparr>)
      else [])"
  unfolding ms.simps(3) ms.simps(6) ms_verbs by simp

lemma valid_title_takeWhile: "valid_title t \<Longrightarrow> takeWhile is_alnum t = t"
  by (simp add: valid_title_def list_all_iff)

lemma valid_title_dropWhile: "valid_title t \<Longrightarrow> dropWhile is_alnum t = []"
  by (simp add: valid_title_def list_all_iff)

lemma valid_title_nonempty: "valid_title t \<Longrightarrow> t \<noteq> []"
  by (simp add: valid_title_def)

lemma not_valid_title:
  "\<not> valid_title t \<Longrightarrow> takeWhile is_alnum t = [] \<or> dropWhile is_alnum t \<noteq> []"
  by (cases t) (simp_all add: valid_title_def list_all_iff)

lemma ms_title_end:
  "ms (Cat (Cap n (Plus (Cls alnum))) Eol) s =
     (if valid_title (rest s)
      then [s\<lparr>pos := pos s + length (rest s), rest := [], caps := (caps s)(n \<mapsto> rest s)\<rparr>]
      else [])"
proof -
  have 1: "ms (Cat (Cap n (Plus (Cls alnum))) Eol) s =
      (if takeWhile is_alnum (rest s) = [] then []
       else ms Eol (s\<lparr>pos := pos s + length (takeWhile is_alnum (rest s)),
                    rest := dropWhile is_alnum (rest s),
                    caps := (caps s)(n \<mapsto> takeWhile is_alnum (rest s))\<rparr>))"
  proof (rule ms_group_then)
    fix s' :: mstate
    assume "rest s' \<noteq> []"
    then show "ms Eol s' = []" by simp
  next
    show "is_alnum = in_cls alnum" by (simp add: is_alnum_def fun_eq_iff)
  qed
  show ?thesis
  proof (cases "valid_title (rest s)")
    case True
    from valid_title_takeWhile [OF True] valid_title_dropWhile [OF True]
      valid_title_nonempty [OF True] True
    show ?thesis unfolding 1 by (simp del: dropWhile_eq_Nil_conv takeWhile_eq_all_conv)
  next
    case False
    from not_valid_title [OF False] False show ?thesis
      unfolding 1 by (auto simp del: dropWhile_eq_Nil_conv takeWhile_eq_all_conv)
  qed
qed

lemma ms_validPath_unfolded:
  "ms validPath s =
     (if pos s = 0 then
        (case rest s of
           [] \<Rightarrow> []
         | x # xs \<Rightarrow>
             if x = CHR ''/'' \<and> take 4 xs \<in> set verbs then
               (case drop 4 xs of
                  [] \<Rightarrow> []
                | y # ys \<Rightarrow>
                    if y = CHR ''/'' \<and> valid_title ys
                    then [s\<lparr>pos := 6 + length ys, rest := [],
                            caps := (caps s)(1 \<mapsto> take 4 xs, 2 \<mapsto> ys)\<rparr>]
                    else [])
             else [])
      else [])"
  unfolding validPath_def ms_Bol_then ms_Lit_then ms_verbs_then ms_title_end
  by (simp split: list.splits)

lemma search_validPath_later: "0 < p \<Longrightarrow> search validPath p s = None"
  by (induction s arbitrary: p) (simp_all add: ms_validPath_unfolded)

lemma route_Nil: "route [] = None"
  by (simp add: route_def)

lemma route_Cons:
  "route (x # xs) =
     (if x = CHR ''/'' \<and> take 4 xs \<in> set verbs then
        (case drop 4 xs of
           [] \<Rightarrow> None
         | y # ys \<Rightarrow> if y = CHR ''/'' \<and> valid_title ys then Some (take 4 xs, ys) else None)
      else None)"
proof (cases "drop 4 xs")
  case Nil
  then have "drop 5 xs = []" by simp
  with Nil show ?thesis by (simp add: route_def valid_title_def)
next
  case (Cons y ys)
  have "drop 5 xs = drop 1 (drop 4 xs)" by simp
  with Cons have "drop 5 xs = ys" by simp
  with Cons show ?thesis by (auto simp: route_def)
qed

lemma verbs_length: "v \<in> set verbs \<Longrightarrow> length v = 4"
  by (auto simp: verbs_def)

lemma route_iff:
  "route path = Some (v, t) \<longleftrightarrow>
     v \<in> set verbs \<and> valid_title t \<and> path = CHR ''/'' # v @ CHR ''/'' # t"
proof
  assume r: "route path = Some (v, t)"
  then obtain x xs where p: "path = x # xs" by (cases path) (simp_all add: route_Nil)
  from r p obtain y where x: "x = CHR ''/''" and v: "take 4 xs = v" "v \<in> set verbs"
    and d: "drop 4 xs = y # t" and y: "y = CHR ''/''" and t: "valid_title t"
    by (auto simp: route_Cons split: if_splits list.splits)
  have "xs = take 4 xs @ drop 4 xs" by simp
  with v d y have "xs = v @ CHR ''/'' # t" by simp
  with p x v t show "v \<in> set verbs \<and> valid_title t \<and> path = CHR ''/'' # v @ CHR ''/'' # t"
    by simp
next
  assume a: "v \<in> set verbs \<and> valid_title t \<and> path = CHR ''/'' # v @ CHR ''/'' # t"
  then have "length v = 4" by (simp add: verbs_length)
  with a show "route path = Some (v, t)" by (simp add: route_Cons)
qed

lemma FindStringSubmatch_validPath:
  "FindStringSubmatch validPath path =
     (case route path of None \<Rightarrow> None | Some (v, t) \<Rightarrow> Some [path, v, t])"
proof (cases "route path")
  case None
  show ?thesis
  proof (cases path)
    case Nil
    then show ?thesis
      by (simp add: FindStringSubmatch_def ms_validPath_unfolded route_Nil)
  next
    case (Cons x xs)
    with None show ?thesis
      by (auto simp: FindStringSubmatch_def ms_validPath_unfolded route_Cons
          search_validPath_later split: list.splits if_splits)
  qed
next
  case (Some vt)
  obtain v t where vt: "vt = (v, t)" by (cases vt)
  with Some have r: "v \<in> set verbs" "valid_title t" "path = CHR ''/'' # v @ CHR ''/'' # t"
    by (simp_all add: route_iff)
  have l: "length v = 4" using r(1) by (rule verbs_length)
  have "search validPath 0 path =
      Some (0, \<lparr>pos = 6 + length t, rest = [], caps = [1 \<mapsto> v, 2 \<mapsto> t]\<rparr>)"
    using r l by (simp add: ms_validPath_unfolded)
  moreover have "[1..<Suc 2] = [1, 2::nat]"
    by (simp add: upt_rec)
  ultimately show ?thesis
    using Some vt r l by (simp add: FindStringSubmatch_def ngroups_validPath slice_def)
qed

lemma makeHandler_route:
  "makeHandler fn r w =
     (case route (url_path r) of
        None \<Rightarrow> (http_NotFound, w)
      | Some (v, t) \<Rightarrow> fn r t w)"
  by (simp add: makeHandler_def FindStringSubmatch_validPath index_def split: option.splits)

text \<open>
  C8: a handler wrapped by \<open>makeHandler\<close> is called only for a path that
  \<open>validPath\<close> matches, which is a path made of a slash, one of
  \<open>edit\<close>, \<open>save\<close> and \<open>view\<close>, a slash and a non-empty title of letters and
  digits; the title it is called with is the second group of the match. For
  every other path the response is 404 Not Found and the files are as before,
  whatever the wrapped handler is.
\<close>

theorem makeHandler_checks_path:
  "(FindStringSubmatch validPath (url_path r) = None \<longrightarrow>
      makeHandler fn r w = (HttpError ''404 page not found'' 404, w)) \<and>
   (\<forall>m. FindStringSubmatch validPath (url_path r) = Some m \<longrightarrow>
      (\<exists>v t. m = [url_path r, v, t] \<and> v \<in> set [''edit'', ''save'', ''view''] \<and>
         t \<noteq> [] \<and> (\<forall>c\<in>set t. is_alnum c) \<and> url_path r = CHR ''/'' # v @ CHR ''/'' # t \<and>
         makeHandler fn r w = fn r t w))"
proof (cases "route (url_path r)")
  case None
  then show ?thesis
    by (simp add: makeHandler_route FindStringSubmatch_validPath http_NotFound_def
        StatusNotFound_def)
next
  case (Some vt)
  obtain v t where vt: "vt = (v, t)" by (cases vt)
  from Some vt have "v \<in> set verbs" "valid_title t" "url_path r = CHR ''/'' # v @ CHR ''/'' # t"
    by (simp_all add: route_iff)
  with Some vt show ?thesis
    by (simp add: makeHandler_route FindStringSubmatch_validPath verbs_def valid_title_def
        list_all_iff)
qed

theorem makeHandler_checks_path_witness:
  "FindStringSubmatch validPath ''/edit/Page2'' = Some [''/edit/Page2'', ''edit'', ''Page2''] \<and>
   makeHandler (\<lambda>r title w. (Written title, w)) (demo_request ''/edit/Page2'') (demo_world []) =
     (Written ''Page2'', demo_world []) \<and>
   FindStringSubmatch validPath ''/edit/a.b'' = None \<and>
   makeHandler (\<lambda>r title w. (Written title, w)) (demo_request ''/edit/a.b'') (demo_world []) =
     (HttpError ''404 page not found'' 404, demo_world [])"
proof -
  have m: "FindStringSubmatch validPath ''/edit/Page2'' = Some [''/edit/Page2'', ''edit'', ''Page2'']"
    by code_simp
  have n: "FindStringSubmatch validPath ''/edit/a.b'' = None"
    by code_simp
  show ?thesis
    using m n
      makeHandler_checks_path [of "demo_request ''/edit/Page2''"
        "\<lambda>r title w. (Written title, w)" "demo_world []"]
      makeHandler_checks_path [of "demo_request ''/edit/a.b''"
        "\<lambda>r title w. (Written title, w)" "demo_world []"]
    by (simp add: demo_request_def)
qed

section \<open>Escaped text and its segments\<close>

lemma html_text_escape_byte: "html_text ys \<Longrightarrow> html_text (escape_byte c @ ys)"
  by (simp add: escape_byte_def htmlNull_def markup_def entities_def)

lemma html_text_HTMLEscapeString: "html_text (HTMLEscapeString s)"
proof (induction s)
  case Nil
  show ?case by (simp add: HTMLEscapeString_def)
next
  case (Cons c s)
  then have "html_text (escape_byte c @ HTMLEscapeString s)"
    by (rule html_text_escape_byte)
  then show ?case by (simp add: HTMLEscapeString_def)
qed

lemma html_text_no_markup: "html_text e \<Longrightarrow> c \<in> set e \<Longrightarrow> c \<notin> set markup"
  by (induction e) auto

lemma addc_Text:
  "Text t \<in> set (addc c ss) \<Longrightarrow>
     t = [c] \<or> (\<exists>u. t = c # u \<and> Text u \<in> set ss) \<or> Text t \<in> set ss"
  by (cases "(c, ss)" rule: addc.cases) auto

lemma addc_Link: "Link t \<in> set (addc c ss) \<longleftrightarrow> Link t \<in> set ss"
  by (cases "(c, ss)" rule: addc.cases) auto

lemma segments_Cons:
  "segments (c # cs) =
     (case marker (c # cs) of Some (t, r) \<Rightarrow> Link t # segments r | None \<Rightarrow> addc c (segments cs))"
  by simp

lemma segments_Text: "Text t \<in> set (segments e) \<Longrightarrow> set t \<subseteq> set e"
proof (induction "length e" arbitrary: e t rule: less_induct)
  case less
  show ?case
  proof (cases e)
    case Nil
    with less.prems show ?thesis by simp
  next
    case (Cons c cs)
    show ?thesis
    proof (cases "marker (c # cs)")
      case None
      with less.prems Cons have "Text t \<in> set (addc c (segments cs))" by simp
      then consider "t = [c]" | u where "t = c # u" "Text u \<in> set (segments cs)"
        | "Text t \<in> set (segments cs)"
        using addc_Text by blast
      then show ?thesis
      proof cases
        case 1
        with Cons show ?thesis by simp
      next
        case 2
        from less.hyps [of cs u] 2(2) Cons have "set u \<subseteq> set cs" by simp
        with 2(1) Cons show ?thesis by auto
      next
        case 3
        from less.hyps [of cs t] 3 Cons have "set t \<subseteq> set cs" by simp
        with Cons show ?thesis by auto
      qed
    next
      case (Some tr)
      obtain u r where tr: "tr = (u, r)" by (cases tr)
      with Some have e: "c # cs = CHR ''['' # u @ CHR '']'' # r" by (simp add: marker_iff)
      then have l: "length r < length e" using Cons arg_cong [OF e, of length] by simp
      from less.prems Cons Some tr have "Text t \<in> set (segments r)" by simp
      with less.hyps [OF l] have "set t \<subseteq> set r" by simp
      moreover have "set r \<subseteq> set e" using e Cons by auto
      ultimately show ?thesis by simp
    qed
  qed
qed

lemma segments_Link: "Link t \<in> set (segments e) \<Longrightarrow> valid_title t"
proof (induction "length e" arbitrary: e rule: less_induct)
  case less
  show ?case
  proof (cases e)
    case Nil
    with less.prems show ?thesis by simp
  next
    case (Cons c cs)
    show ?thesis
    proof (cases "marker (c # cs)")
      case None
      with less.prems Cons have "Link t \<in> set (segments cs)" by (simp add: addc_Link)
      with less.hyps [of cs] Cons show ?thesis by simp
    next
      case (Some tr)
      obtain u r where tr: "tr = (u, r)" by (cases tr)
      with Some have e: "c # cs = CHR ''['' # u @ CHR '']'' # r" by (simp add: marker_iff)
      then have l: "length r < length e" using Cons arg_cong [OF e, of length] by simp
      from less.prems Cons Some tr have "t = u \<or> Link t \<in> set (segments r)" by simp
      then show ?thesis
      proof
        assume "t = u"
        with Some tr show ?thesis by (simp add: marker_valid_title)
      next
        assume "Link t \<in> set (segments r)"
        with less.hyps [OF l] show ?thesis by simp
      qed
    qed
  qed
qed

lemma segments_safe:
  assumes "html_text e" "g \<in> set (segments e)"
  shows "case g of Text t \<Rightarrow> (\<forall>c\<in>set t. c \<notin> set markup) | Link t \<Rightarrow> valid_title t"
proof (cases g)
  case (Text t)
  with assms(2) have "set t \<subseteq> set e" by (simp add: segments_Text)
  with assms(1) Text show ?thesis by (auto dest: html_text_no_markup)
next
  case (Link t)
  with assms(2) show ?thesis by (simp add: segments_Link)
qed

lemma search_linkPath_nowhere:
  "search linkPath p s = None \<Longrightarrow> marker (drop j s) = None"
proof (induction s arbitrary: p j)
  case Nil
  show ?case by (simp add: marker_def)
next
  case (Cons c cs)
  from Cons.prems have m: "marker (c # cs) = None" and n: "search linkPath (Suc p) cs = None"
    by (auto simp: ms_linkPath split: option.splits list.splits)
  show ?case
  proof (cases j)
    case 0
    with m show ?thesis by simp
  next
    case (Suc i)
    with Cons.IH [OF n, of i] show ?thesis by simp
  qed
qed

lemma is_alnum_ranges:
  "is_alnum c \<longleftrightarrow>
     c \<in> {CHR ''a''..CHR ''z''} \<union> {CHR ''A''..CHR ''Z''} \<union> {CHR ''0''..CHR ''9''}"
  by (simp add: is_alnum_def in_cls_def alnum_def)

section \<open>The rendering pipeline\<close>

text \<open>
  C1: \<open>viewHandler\<close> escapes the raw body first and looks for markers in the
  escaped text. The display body is the escaped text with its markers, and
  nothing else, replaced by anchors; the escaped text has no markup
  character outside an entity, so the literal spans of the display body have
  none and every anchor has a title of letters and digits. For the raw body
  \<open><script>[X]</script>\<close> the tags come out escaped and \<open>[X]\<close> as an anchor.
\<close>

theorem view_escapes_before_linking:
  assumes "loadPage dir title w = Inr p"
  shows "viewHandler templates dir r title w =
       (renderTemplate templates ''view''
          (p\<lparr>DisplayBody :=
               concat (map (subst anchor) (segments (HTMLEscapeString (Body p))))\<rparr>), w) \<and>
     concat (map (subst bracket) (segments (HTMLEscapeString (Body p)))) =
       HTMLEscapeString (Body p) \<and>
     html_text (HTMLEscapeString (Body p)) \<and>
     (\<forall>g\<in>set (segments (HTMLEscapeString (Body p))).
        case g of Text t \<Rightarrow> (\<forall>c\<in>set t. c \<notin> set markup) | Link t \<Rightarrow> valid_title t) \<and>
     (Body p = ''<script>[X]</script>'' \<longrightarrow>
        concat (map (subst anchor) (segments (HTMLEscapeString (Body p)))) =
          ''&lt;script&gt;'' @ anchor ''X'' @ ''&lt;/script&gt;'')"
proof -
  have 1: "viewHandler templates dir r title w =
       (renderTemplate templates ''view''
          (p\<lparr>DisplayBody :=
               concat (map (subst anchor) (segments (HTMLEscapeString (Body p))))\<rparr>), w)"
    using viewHandler_found [OF assms] by (simp add: replace_markers_def)
  have 2: "concat (map (subst bracket) (segments (HTMLEscapeString (Body p)))) =
       HTMLEscapeString (Body p)"
    using replace_markers_bracket [of "HTMLEscapeString (Body p)"]
    by (simp add: replace_markers_def)
  have 3: "html_text (HTMLEscapeString (Body p))"
    by (rule html_text_HTMLEscapeString)
  have 4: "\<forall>g\<in>set (segments (HTMLEscapeString (Body p))).
        case g of Text t \<Rightarrow> (\<forall>c\<in>set t. c \<notin> set markup) | Link t \<Rightarrow> valid_title t"
    using segments_safe [OF 3] by blast
  have "concat (map (subst anchor) (segments (HTMLEscapeString ''<script>[X]</script>''))) =
          ''&lt;script&gt;'' @ anchor ''X'' @ ''&lt;/script&gt;''"
    by code_simp
  then have 5: "Body p = ''<script>[X]</script>'' \<longrightarrow>
        concat (map (subst anchor) (segments (HTMLEscapeString (Body p)))) =
          ''&lt;script&gt;'' @ anchor ''X'' @ ''&lt;/script&gt;''"
    by simp
  from 1 2 3 4 5 show ?thesis by blast
qed

theorem view_escapes_before_linking_witness:
  "viewHandler demo_templates ''data/'' (demo_request ''/view/T'') ''T''
      (demo_world [(''data/T.txt'', ''<script>[X]</script>'')]) =
   (Written (''view.html: T: &lt;script&gt;'' @ anchor ''X'' @ ''&lt;/script&gt;''),
    demo_world [(''data/T.txt'', ''<script>[X]</script>'')])"
proof -
  have h: "loadPage ''data/'' ''T'' (demo_world [(''data/T.txt'', ''<script>[X]</script>'')]) =
      Inr \<lparr>Title = ''T'', Body = ''<script>[X]</script>'', DisplayBody = []\<rparr>"
    by (simp add: loadPage_def ReadFile_def demo_world_def)
  show ?thesis
    using view_escapes_before_linking [OF h, of demo_templates "demo_request ''/view/T''"]
    by (simp add: renderTemplate_def demo_templates_def)
qed

text \<open>
  C2: the replacement that \<open>viewHandler\<close> runs on the escaped body returns
  the segments of the body in their order, a literal span as it is and a
  marker span as the anchor of its title; put back as bracketed titles, the
  segments are the body. For \<open>See [Home] and [Page2].\<close> these are the three
  literal spans and, between them, the anchors to \<open>/view/Home\<close> and
  \<open>/view/Page2\<close> with the texts \<open>Home\<close> and \<open>Page2\<close>.
\<close>

theorem links_replace_marker_spans:
  "ReplaceAllFunc linkPath e link_repl = Some (concat (map (subst anchor) (segments e))) \<and>
   concat (map (subst bracket) (segments e)) = e \<and>
   segments ''See [Home] and [Page2].'' =
     [Text ''See '', Link ''Home'', Text '' and '', Link ''Page2'', Text ''.''] \<and>
   ReplaceAllFunc linkPath (HTMLEscapeString ''See [Home] and [Page2].'') link_repl =
     Some (''See <a href='' @ [CHR 0x22] @ ''/view/Home'' @ [CHR 0x22] @ ''>Home</a> and <a href=''
           @ [CHR 0x22] @ ''/view/Page2'' @ [CHR 0x22] @ ''>Page2</a>.'')"
proof -
  have 1: "ReplaceAllFunc linkPath e link_repl = Some (concat (map (subst anchor) (segments e)))"
    by (simp add: ReplaceAllFunc_link_repl replace_markers_def)
  have 2: "concat (map (subst bracket) (segments e)) = e"
    using replace_markers_bracket [of e] by (simp add: replace_markers_def)
  have 3: "segments ''See [Home] and [Page2].'' =
     [Text ''See '', Link ''Home'', Text '' and '', Link ''Page2'', Text ''.'']"
    by code_simp
  have 4: "ReplaceAllFunc linkPath (HTMLEscapeString ''See [Home] and [Page2].'') link_repl =
     Some (''See <a href='' @ [CHR 0x22] @ ''/view/Home'' @ [CHR 0x22] @ ''>Home</a> and <a href=''
           @ [CHR 0x22] @ ''/view/Page2'' @ [CHR 0x22] @ ''>Page2</a>.'')"
    by code_simp
  from 1 2 3 4 show ?thesis by blast
qed

theorem links_replace_marker_spans_witness:
  "ReplaceAllFunc linkPath ''a[b]c'' link_repl = Some (''a'' @ anchor ''b'' @ ''c'') \<and>
   concat (map (subst bracket) (segments ''a[b]c'')) = ''a[b]c''"
proof -
  have "segments ''a[b]c'' = [Text ''a'', Link ''b'', Text ''c'']"
    by code_simp
  then show ?thesis
    using links_replace_marker_spans [of "''a[b]c''"] by simp
qed

text \<open>
  C3: \<open>linkPath\<close> matches at the start of a text exactly when the text
  starts with an opening bracket, one or more characters of a-z, A-Z, 0-9 and
  a closing bracket, and then its group is that run and the match ends right
  after the closing bracket. The search takes the first offset that has such
  a span; \<open>ReplaceAllFunc\<close> replaces, for any replacement function, the
  marker spans that a scan from the left finds when it resumes right after
  each marker, and leaves the rest. \<open>[]\<close> and \<open>[a b]\<close> hold no marker and
  are rendered as they are.
\<close>

theorem linkPath_matches_markers:
  "ms linkPath \<lparr>pos = p, rest = s, caps = Map.empty\<rparr> =
     (case marker s of
        None \<Rightarrow> []
      | Some (t, r) \<Rightarrow> [\<lparr>pos = p + length t + 2, rest = r, caps = [1 \<mapsto> t]\<rparr>]) \<and>
   (marker s = Some (t, r) \<longleftrightarrow>
      s = CHR ''['' # t @ CHR '']'' # r \<and> t \<noteq> [] \<and> (\<forall>c\<in>set t. is_alnum c)) \<and>
   (is_alnum c \<longleftrightarrow>
      c \<in> {CHR ''a''..CHR ''z''} \<union> {CHR ''A''..CHR ''Z''} \<union> {CHR ''0''..CHR ''9''}) \<and>
   (\<forall>a0 st. search linkPath p s = Some (a0, st) \<longrightarrow>
      (\<exists>k u. a0 = p + k \<and> drop k s = bracket u @ rest st \<and> valid_title u \<and>
         pos st = a0 + length u + 2 \<and> caps st = [1 \<mapsto> u] \<and>
         (\<forall>j<k. marker (drop j s) = None))) \<and>
   (search linkPath p s = None \<longrightarrow> (\<forall>j. marker (drop j s) = None)) \<and>
   ReplaceAllFunc linkPath e (\<lambda>m. Some (f m)) =
     Some (concat (map (subst (\<lambda>u. f (bracket u))) (segments e))) \<and>
   segments ''[]'' = [Text ''[]''] \<and> segments ''[a b]'' = [Text ''[a b]''] \<and>
   ReplaceAllFunc linkPath (HTMLEscapeString ''[]'') link_repl = Some ''[]'' \<and>
   ReplaceAllFunc linkPath (HTMLEscapeString ''[a b]'') link_repl = Some ''[a b]''"
proof -
  have 1: "ms linkPath \<lparr>pos = p, rest = s, caps = Map.empty\<rparr> =
     (case marker s of
        None \<Rightarrow> []
      | Some (t, r) \<Rightarrow> [\<lparr>pos = p + length t + 2, rest = r, caps = [1 \<mapsto> t]\<rparr>])"
    by (simp add: ms_linkPath split: option.splits)
  have 2: "marker s = Some (t, r) \<longleftrightarrow>
      s = CHR ''['' # t @ CHR '']'' # r \<and> t \<noteq> [] \<and> (\<forall>c\<in>set t. is_alnum c)"
    by (rule marker_iff)
  have 3: "is_alnum c \<longleftrightarrow>
      c \<in> {CHR ''a''..CHR ''z''} \<union> {CHR ''A''..CHR ''Z''} \<union> {CHR ''0''..CHR ''9''}"
    by (rule is_alnum_ranges)
  have 4: "\<forall>a0 st. search linkPath p s = Some (a0, st) \<longrightarrow>
      (\<exists>k u. a0 = p + k \<and> drop k s = bracket u @ rest st \<and> valid_title u \<and>
         pos st = a0 + length u + 2 \<and> caps st = [1 \<mapsto> u] \<and>
         (\<forall>j<k. marker (drop j s) = None))"
  proof (intro allI impI)
    fix a0 st
    assume "search linkPath p s = Some (a0, st)"
    from search_linkPath_Some [OF this]
    show "\<exists>k u. a0 = p + k \<and> drop k s = bracket u @ rest st \<and> valid_title u \<and>
         pos st = a0 + length u + 2 \<and> caps st = [1 \<mapsto> u] \<and>
         (\<forall>j<k. marker (drop j s) = None)"
      by blast
  qed
  have 5: "search linkPath p s = None \<longrightarrow> (\<forall>j. marker (drop j s) = None)"
    using search_linkPath_nowhere by blast
  have 6: "ReplaceAllFunc linkPath e (\<lambda>m. Some (f m)) =
     Some (concat (map (subst (\<lambda>u. f (bracket u))) (segments e)))"
    using ReplaceAllFunc_linkPath [of "\<lambda>m. Some (f m)" "\<lambda>u. f (bracket u)" e]
    by (simp add: replace_markers_def)
  have 7: "segments ''[]'' = [Text ''[]'']" "segments ''[a b]'' = [Text ''[a b]'']"
    by code_simp+
  have 8: "ReplaceAllFunc linkPath (HTMLEscapeString ''[]'') link_repl = Some ''[]''"
    "ReplaceAllFunc linkPath (HTMLEscapeString ''[a b]'') link_repl = Some ''[a b]''"
    by code_simp+
  from 1 2 3 4 5 6 7 8 show ?thesis by blast
qed

theorem linkPath_matches_markers_witness:
  "ms linkPath \<lparr>pos = 3, rest = ''[Home] x'', caps = Map.empty\<rparr> =
     [\<lparr>pos = 9, rest = '' x'', caps = [1 \<mapsto> ''Home'']\<rparr>] \<and>
   marker ''[Home] x'' = Some (''Home'', '' x'') \<and>
   ReplaceAllFunc linkPath ''[[a]]'' (\<lambda>m. Some (rev m)) = Some ''[]a[]''"
proof -
  have m: "marker ''[Home] x'' = Some (''Home'', '' x'')"
    by code_simp
  have s: "segments ''[[a]]'' = [Text ''['', Link ''a'', Text '']'']"
    by code_simp
  show ?thesis
    using linkPath_matches_markers [of 3 "''[Home] x''" "''Home''" "'' x''" "CHR ''a''"
        "''[[a]]''" rev] m s
    by (simp add: bracket_def)
qed

section \<open>Routing\<close>

lemma cleanPath_rooted: "\<exists>q. cleanPath p = CHR ''/'' # q"
  by (simp add: cleanPath_def Clean_def Let_def)

lemma clean_rooted:
  assumes "cleanPath p = p"
  shows "\<exists>q. p = CHR ''/'' # q"
  using cleanPath_rooted [of p] assms by simp

lemma snoc_slash_eq: "p @ ''/'' = q @ ''/'' \<longleftrightarrow> p = q"
  by simp

lemma main_mux_exact:
  assumes "\<not> prefix ''/view/'' p" "\<not> prefix ''/edit/'' p" "\<not> prefix ''/save/'' p"
    "\<not> prefix ''/static/'' p"
  shows "map_of (main_mux templates) p = (if p = ''/'' then Some indexHandler else None)"
proof -
  from assms have "p \<noteq> ''/view/''" "p \<noteq> ''/edit/''" "p \<noteq> ''/save/''" "p \<noteq> ''/static/''"
    by auto
  then show ?thesis by (simp add: main_mux_def)
qed

lemma main_mux_slash:
  assumes "p \<noteq> []" "p \<notin> set [''/view'', ''/edit'', ''/save'', ''/static'']"
  shows "map_of (main_mux templates) (p @ ''/'') = None"
proof -
  have "p @ ''/'' \<noteq> [] @ ''/''" "p @ ''/'' \<noteq> ''/view'' @ ''/''" "p @ ''/'' \<noteq> ''/edit'' @ ''/''"
    "p @ ''/'' \<noteq> ''/save'' @ ''/''" "p @ ''/'' \<noteq> ''/static'' @ ''/''"
    using assms unfolding snoc_slash_eq by simp_all
  then show ?thesis by (simp add: main_mux_def)
qed

lemma main_mux_longest:
  assumes "\<not> prefix ''/view/'' p" "\<not> prefix ''/edit/'' p" "\<not> prefix ''/save/'' p"
    "\<not> prefix ''/static/'' p" "p = CHR ''/'' # q"
  shows "longest (main_mux templates) p = Some (''/'', indexHandler)"
  using assms by (simp add: main_mux_def)

lemma main_mux_handler:
  assumes "\<not> prefix ''/view/'' p" "\<not> prefix ''/edit/'' p" "\<not> prefix ''/save/'' p"
    "\<not> prefix ''/static/'' p" "p = CHR ''/'' # q"
  shows "mux_handler (main_mux templates) p = indexHandler"
  using main_mux_exact [OF assms(1-4)] main_mux_longest [OF assms]
  by (simp add: mux_handler_def)

lemma main_mux_no_redirect:
  assumes "\<not> prefix ''/view/'' p" "\<not> prefix ''/edit/'' p" "\<not> prefix ''/save/'' p"
    "\<not> prefix ''/static/'' p" "p \<notin> set [''/view'', ''/edit'', ''/save'', ''/static'']"
  shows "\<not> shouldRedirect (main_mux templates) p"
  using main_mux_exact [OF assms(1-4)] main_mux_slash [OF _ assms(5)]
  by (simp add: shouldRedirect_def)

text \<open>
  C10, as amended: a request whose path is clean (the path \<open>/\<close> is) and is
  neither under \<open>/view/\<close>, \<open>/edit/\<close>, \<open>/save/\<close> or \<open>/static/\<close> nor one of
  \<open>/view\<close>, \<open>/edit\<close>, \<open>/save\<close> and \<open>/static\<close> is answered by
  \<open>indexHandler\<close>: a redirect to \<open>/view/index\<close> with status 302, the files
  unchanged.
\<close>

theorem other_paths_redirect_to_index:
  assumes "cleanPath (url_path r) = url_path r"
    and "url_path r \<notin> set [''/view'', ''/edit'', ''/save'', ''/static'']"
    and "\<not> prefix ''/view/'' (url_path r)" and "\<not> prefix ''/edit/'' (url_path r)"
    and "\<not> prefix ''/save/'' (url_path r)" and "\<not> prefix ''/static/'' (url_path r)"
  shows "serve templates r w = (HttpRedirect ''/view/index'' 302, w)"
proof -
  from clean_rooted [OF assms(1)] obtain q where q: "url_path r = CHR ''/'' # q" ..
  have h: "mux_handler (main_mux templates) (url_path r) = indexHandler"
    using assms(3-6) q by (rule main_mux_handler)
  have n: "\<not> shouldRedirect (main_mux templates) (url_path r)"
    using assms(3-6) assms(2) by (rule main_mux_no_redirect)
  have "Handler (main_mux templates) r = indexHandler"
    using h n assms(1) by (simp add: Handler_def Let_def)
  moreover have "url_path r \<noteq> ''*''" using q by simp
  ultimately show ?thesis
    by (simp add: serve_def ServeHTTP_def indexHandler_def StatusFound_def)
qed

theorem other_paths_redirect_to_index_witness:
  "serve demo_templates (demo_request ''/'') (demo_world []) =
     (HttpRedirect ''/view/index'' 302, demo_world []) \<and>
   serve demo_templates (demo_request ''/favicon.ico'') (demo_world []) =
     (HttpRedirect ''/view/index'' 302, demo_world [])"
proof -
  have c: "cleanPath ''/'' = ''/''" "cleanPath ''/favicon.ico'' = ''/favicon.ico''"
    by code_simp+
  show ?thesis
    using other_paths_redirect_to_index [of "demo_request ''/''" demo_templates "demo_world []"]
      other_paths_redirect_to_index [of "demo_request ''/favicon.ico''" demo_templates
        "demo_world []"] c
    by (simp add: demo_request_def)
qed

text \<open>
  The claim as it was stated fails at the path \<open>/view\<close>: it is under none of
  the four subtrees, and the answer is ServeMux's redirect to the subtree root
  \<open>/view/\<close> with status 301, not a redirect to \<open>/view/index\<close>.
\<close>

theorem view_without_slash_counterexample:
  "\<not> prefix ''/view/'' ''/view'' \<and> \<not> prefix ''/edit/'' ''/view'' \<and>
   \<not> prefix ''/save/'' ''/view'' \<and> \<not> prefix ''/static/'' ''/view'' \<and>
   fst (serve demo_templates (demo_request ''/view'') (demo_world [])) =
     HttpRedirect ''/view/'' 301 \<and>
   fst (serve demo_templates (demo_request ''/view'') (demo_world [])) \<noteq>
     HttpRedirect ''/view/index'' 302"
proof -
  have c: "cleanPath ''/view'' = ''/view''"
    by code_simp
  have "fst (serve demo_templates (demo_request ''/view'') (demo_world [])) =
      HttpRedirect ''/view/'' 301"
    using c
    by (simp add: serve_def ServeHTTP_def Handler_def Let_def shouldRedirect_def main_mux_def
        RedirectHandler_def StatusMovedPermanently_def demo_request_def)
  then show ?thesis by simp
qed

end
